theory Spec2Isabelle
  imports Complex_Main "HOL-Library.AList"
begin

section \<open>JavaScript numbers and option values\<close>

text \<open>
  A JavaScript \<open>number\<close>: a finite value (taken as a rational; every finite double is
  one, and rounding of sums is left out), the two infinities, or NaN.
\<close>

datatype number = Fin rat | PosInf | NegInf | NaN

text \<open>\<open>a <= b\<close> for a finite right operand: every comparison with NaN is false.\<close>

fun num_le :: "number \<Rightarrow> rat \<Rightarrow> bool" where
  "num_le (Fin a) b = (a \<le> b)"
| "num_le NegInf b = True"
| "num_le PosInf b = False"
| "num_le NaN b = False"

text \<open>\<open>Date.now() + maxAge\<close>, the left operand being finite.\<close>

fun num_add :: "rat \<Rightarrow> number \<Rightarrow> number" where
  "num_add a (Fin b) = Fin (a + b)"
| "num_add a PosInf = PosInf"
| "num_add a NegInf = NegInf"
| "num_add a NaN = NaN"

text \<open>Truthiness of a number: \<open>0\<close> and NaN are falsy.\<close>

fun truthy :: "number \<Rightarrow> bool" where
  "truthy (Fin a) = (a \<noteq> 0)"
| "truthy NaN = False"
| "truthy PosInf = True"
| "truthy NegInf = True"

text \<open>\<open>Math.trunc\<close> on a finite value.\<close>

definition trunc :: "rat \<Rightarrow> int" where
  "trunc q = (if 0 \<le> q then \<lfloor>q\<rfloor> else \<lceil>q\<rceil>)"

text \<open>
  The value of the \<open>maxAge\<close> property of the options argument of \<open>set\<close>: missing
  (\<open>undefined\<close>), a number, or a value of any other type.
\<close>

datatype jsval = Undefined | Number number | Other

section \<open>Insertion-ordered maps\<close>

text \<open>
  A JavaScript \<open>Map\<close> keeps its keys in insertion order: \<open>m.set\<close> on a key that is
  present replaces the value in place, on a new key it appends; \<open>m.delete\<close> removes the
  key. An association list with these operations.
\<close>

definition map_has :: "('k \<times> 'a) list \<Rightarrow> 'k \<Rightarrow> bool" where
  "map_has m k = (k \<in> fst ` set m)"

abbreviation map_get :: "('k \<times> 'a) list \<Rightarrow> 'k \<Rightarrow> 'a option" where
  "map_get m k \<equiv> map_of m k"

abbreviation map_set :: "('k \<times> 'a) list \<Rightarrow> 'k \<Rightarrow> 'a \<Rightarrow> ('k \<times> 'a) list" where
  "map_set m k v \<equiv> AList.update k v m"

abbreviation map_delete :: "('k \<times> 'a) list \<Rightarrow> 'k \<Rightarrow> ('k \<times> 'a) list" where
  "map_delete m k \<equiv> AList.delete k m"

text \<open>\<open>new Map(items)\<close>: the pairs are set one after the other.\<close>

definition new_Map :: "('k \<times> 'a) list \<Rightarrow> ('k \<times> 'a) list" where
  "new_Map items = foldl (\<lambda>m (k, v). map_set m k v) [] items"

section \<open>The cache\<close>

record 'v CacheItem =
  val :: 'v
  expiry :: "number option"

text \<open>
  The private fields of \<open>QuickLRU\<close>. \<open>size'\<close> is \<open>#size\<close>; \<open>maxSize\<close> is a number of
  items. The callback \<open>onEviction\<close> is modelled by whether one is configured and by the
  list \<open>evicted\<close> of the calls it has received, oldest first; it does not call back into
  the cache.
\<close>

record ('k, 'v) QuickLRU =
  size' :: int
  cache :: "('k \<times> 'v CacheItem) list"
  oldCache :: "('k \<times> 'v CacheItem) list"
  maxSize :: int
  maxAge :: number
  onEviction :: bool
  evicted :: "('k \<times> 'v) list"

datatype error = TypeError

text \<open>
  The constructor. \<open>options.maxAge\<close> is optional; \<open>options.maxAge || Infinity\<close> turns a
  missing value and NaN into \<open>Infinity\<close> (zero has been refused before).
\<close>

definition constructor :: "int \<Rightarrow> number option \<Rightarrow> bool \<Rightarrow> error + ('k, 'v) QuickLRU" where
  "constructor optMaxSize optMaxAge optOnEviction =
    (if \<not> (optMaxSize \<noteq> 0 \<and> optMaxSize > 0) then Inl TypeError
     else if optMaxAge = Some (Fin 0) then Inl TypeError
     else Inr \<lparr> size' = 0, cache = [], oldCache = [], maxSize = optMaxSize,
       maxAge = (case optMaxAge of
                   None \<Rightarrow> PosInf
                 | Some n \<Rightarrow> if truthy n then n else PosInf),
       onEviction = optOnEviction, evicted = [] \<rparr>)"

definition emitEvictions ::
  "('k \<times> 'v CacheItem) list \<Rightarrow> ('k, 'v) QuickLRU \<Rightarrow> ('k, 'v) QuickLRU" where
  "emitEvictions items s =
    (if \<not> onEviction s then s
     else s\<lparr>evicted := evicted s @ map (\<lambda>(key, item). (key, val item)) items\<rparr>)"

definition delete :: "'k \<Rightarrow> ('k, 'v) QuickLRU \<Rightarrow> bool \<times> ('k, 'v) QuickLRU" where
  "delete key s =
    (let deleted = map_has (cache s) key;
         s1 = s\<lparr>cache := map_delete (cache s) key\<rparr>;
         s2 = (if deleted then s1\<lparr>size' := size' s1 - 1\<rparr> else s1);
         oldDeleted = map_has (oldCache s2) key
     in (oldDeleted \<or> deleted, s2\<lparr>oldCache := map_delete (oldCache s2) key\<rparr>))"

text \<open>The test of \<open>#deleteIfExpired\<close>: the expiry is a number and \<open>expiry <= Date.now()\<close>.\<close>

definition isExpired :: "'v CacheItem \<Rightarrow> rat \<Rightarrow> bool" where
  "isExpired item now = (case expiry item of None \<Rightarrow> False | Some e \<Rightarrow> num_le e now)"

definition deleteIfExpired ::
  "'k \<Rightarrow> 'v CacheItem \<Rightarrow> rat \<Rightarrow> ('k, 'v) QuickLRU \<Rightarrow> bool \<times> ('k, 'v) QuickLRU" where
  "deleteIfExpired key item now s =
    (if isExpired item now
     then delete key (if onEviction s then s\<lparr>evicted := evicted s @ [(key, val item)]\<rparr> else s)
     else (False, s))"

definition getOrDeleteIfExpired ::
  "'k \<Rightarrow> 'v CacheItem \<Rightarrow> rat \<Rightarrow> ('k, 'v) QuickLRU \<Rightarrow> 'v option \<times> ('k, 'v) QuickLRU" where
  "getOrDeleteIfExpired key item now s =
    (let (deleted, s1) = deleteIfExpired key item now s
     in if \<not> deleted then (Some (val item), s1) else (None, s1))"

text \<open>\<open>item.expiry ? ... : item.value\<close>: a missing, zero or NaN expiry is falsy.\<close>

definition getItemValue ::
  "'k \<Rightarrow> 'v CacheItem \<Rightarrow> rat \<Rightarrow> ('k, 'v) QuickLRU \<Rightarrow> 'v option \<times> ('k, 'v) QuickLRU" where
  "getItemValue key item now s =
    (if (case expiry item of None \<Rightarrow> False | Some e \<Rightarrow> truthy e)
     then getOrDeleteIfExpired key item now s
     else (Some (val item), s))"

text \<open>\<open>#set\<close>: the insertion path, with the rotation of the generations.\<close>

definition set' :: "'k \<Rightarrow> 'v CacheItem \<Rightarrow> ('k, 'v) QuickLRU \<Rightarrow> ('k, 'v) QuickLRU" where
  "set' key item s =
    (let s1 = s\<lparr>cache := map_set (cache s) key item\<rparr>;
         s2 = s1\<lparr>size' := size' s1 + 1\<rparr>
     in if size' s2 \<ge> maxSize s2
        then (let s3 = s2\<lparr>size' := 0\<rparr>;
                  s4 = emitEvictions (oldCache s3) s3;
                  s5 = s4\<lparr>oldCache := cache s4\<rparr>
              in s5\<lparr>cache := []\<rparr>)
        else s2)"

definition moveToRecent :: "'k \<Rightarrow> 'v CacheItem \<Rightarrow> ('k, 'v) QuickLRU \<Rightarrow> ('k, 'v) QuickLRU" where
  "moveToRecent key item s = set' key item (s\<lparr>oldCache := map_delete (oldCache s) key\<rparr>)"

text \<open>
  The two loop bodies of the generators, run to the end over the entries \<open>xs\<close> of the map
  they walk, at one reading \<open>now\<close> of the clock. A loop deletes no entry of the map it
  walks but the current one, so the walk over the live map visits the entries the map
  had when the loop began. \<open>loop_all\<close> yields every entry that has not expired;
  \<open>loop_unshadowed\<close> first skips the keys that \<open>#cache\<close> holds.
\<close>

fun loop_all ::
  "('k \<times> 'v CacheItem) list \<Rightarrow> rat \<Rightarrow> ('k, 'v) QuickLRU
    \<Rightarrow> ('k \<times> 'v CacheItem) list \<times> ('k, 'v) QuickLRU" where
  "loop_all [] now s = ([], s)"
| "loop_all ((key, item) # xs) now s =
    (let (deleted, s1) = deleteIfExpired key item now s;
         (ys, s2) = loop_all xs now s1
     in (if \<not> deleted then (key, item) # ys else ys, s2))"

fun loop_unshadowed ::
  "('k \<times> 'v CacheItem) list \<Rightarrow> rat \<Rightarrow> ('k, 'v) QuickLRU
    \<Rightarrow> ('k \<times> 'v CacheItem) list \<times> ('k, 'v) QuickLRU" where
  "loop_unshadowed [] now s = ([], s)"
| "loop_unshadowed ((key, item) # xs) now s =
    (if \<not> map_has (cache s) key
     then (let (deleted, s1) = deleteIfExpired key item now s;
               (ys, s2) = loop_unshadowed xs now s1
           in (if \<not> deleted then (key, item) # ys else ys, s2))
     else loop_unshadowed xs now s)"

text \<open>\<open>#entriesAscending\<close>, run to the end: \<open>[...this.#entriesAscending()]\<close>.\<close>

definition entriesAscending' ::
  "rat \<Rightarrow> ('k, 'v) QuickLRU \<Rightarrow> ('k \<times> 'v CacheItem) list \<times> ('k, 'v) QuickLRU" where
  "entriesAscending' now s =
    (let (ys1, s1) = loop_unshadowed (oldCache s) now s;
         (ys2, s2) = loop_all (cache s1) now s1
     in (ys1 @ ys2, s2))"

definition get :: "'k \<Rightarrow> rat \<Rightarrow> ('k, 'v) QuickLRU \<Rightarrow> 'v option \<times> ('k, 'v) QuickLRU" where
  "get key now s =
    (case map_get (cache s) key of
       Some item \<Rightarrow> getItemValue key item now s
     | None \<Rightarrow>
        (case map_get (oldCache s) key of
           Some item \<Rightarrow>
             (let (deleted, s1) = deleteIfExpired key item now s
              in if \<not> deleted then (Some (val item), moveToRecent key item s1)
                 else (None, s1))
         | None \<Rightarrow> (None, s)))"

text \<open>
  \<open>set(key, value, {maxAge})\<close>; \<open>opt\<close> is the \<open>maxAge\<close> property of the third argument,
  \<open>Undefined\<close> when the argument or the property is missing: the default of the
  destructuring, \<open>this.#maxAge\<close>, then takes its place.
\<close>

definition set_expiry :: "jsval \<Rightarrow> rat \<Rightarrow> ('k, 'v) QuickLRU \<Rightarrow> number option" where
  "set_expiry opt now s =
    (let maxAge' = (case opt of Undefined \<Rightarrow> Number (maxAge s) | _ \<Rightarrow> opt)
     in (case maxAge' of
           Number n \<Rightarrow> if n \<noteq> PosInf then Some (num_add now n) else None
         | _ \<Rightarrow> None))"

definition set_lru :: "'k \<Rightarrow> 'v \<Rightarrow> jsval \<Rightarrow> rat \<Rightarrow> ('k, 'v) QuickLRU \<Rightarrow> ('k, 'v) QuickLRU" where
  "set_lru key v opt now s =
    (let e = set_expiry opt now s
     in if map_has (cache s) key
        then s\<lparr>cache := map_set (cache s) key \<lparr>val = v, expiry = e\<rparr>\<rparr>
        else set' key \<lparr>val = v, expiry = e\<rparr> s)"

definition has :: "'k \<Rightarrow> rat \<Rightarrow> ('k, 'v) QuickLRU \<Rightarrow> bool \<times> ('k, 'v) QuickLRU" where
  "has key now s =
    (case map_get (cache s) key of
       Some item \<Rightarrow> (let (deleted, s1) = deleteIfExpired key item now s in (\<not> deleted, s1))
     | None \<Rightarrow>
        (case map_get (oldCache s) key of
           Some item \<Rightarrow> (let (deleted, s1) = deleteIfExpired key item now s in (\<not> deleted, s1))
         | None \<Rightarrow> (False, s)))"

text \<open>\<open>peek\<close>, with \<open>#peek\<close> unfolded: the item of the first generation that has the key.\<close>

definition peek :: "'k \<Rightarrow> rat \<Rightarrow> ('k, 'v) QuickLRU \<Rightarrow> 'v option \<times> ('k, 'v) QuickLRU" where
  "peek key now s =
    (case map_get (cache s) key of
       Some item \<Rightarrow> getItemValue key item now s
     | None \<Rightarrow>
        (case map_get (oldCache s) key of
           Some item \<Rightarrow> getItemValue key item now s
         | None \<Rightarrow> (None, s)))"

text \<open>\<open>this.#cache.get(key) ?? this.#oldCache.get(key)\<close>: the entry a key stands for.\<close>

definition find_item :: "'k \<Rightarrow> ('k, 'v) QuickLRU \<Rightarrow> 'v CacheItem option" where
  "find_item key s =
    (case map_get (cache s) key of
       Some item \<Rightarrow> Some item
     | None \<Rightarrow> map_get (oldCache s) key)"

text \<open>
  \<open>expiresIn\<close>: the outer \<open>None\<close> is \<open>undefined\<close>. A truthy expiry gives the
  difference, a falsy one (missing, zero, NaN) gives \<open>Infinity\<close>.
\<close>

definition expiresIn :: "'k \<Rightarrow> rat \<Rightarrow> ('k, 'v) QuickLRU \<Rightarrow> number option" where
  "expiresIn key now s =
    (case find_item key s of
       None \<Rightarrow> None
     | Some item \<Rightarrow>
        (case expiry item of
           None \<Rightarrow> Some PosInf
         | Some e \<Rightarrow> if truthy e then Some (num_add (- now) e) else Some PosInf))"

definition clear :: "('k, 'v) QuickLRU \<Rightarrow> ('k, 'v) QuickLRU" where
  "clear s = s\<lparr>cache := [], oldCache := [], size' := 0\<rparr>"

definition resize :: "int \<Rightarrow> rat \<Rightarrow> ('k, 'v) QuickLRU \<Rightarrow> error + ('k, 'v) QuickLRU" where
  "resize newSize now s =
    (if \<not> (newSize \<noteq> 0 \<and> newSize > 0) then Inl TypeError
     else
      (let (items, s1) = entriesAscending' now s;
           removeCount = int (length items) - newSize;
           s2 = (if removeCount < 0
                 then s1\<lparr>cache := new_Map items, oldCache := [], size' := int (length items)\<rparr>
                 else (let s3 = (if removeCount > 0
                                 then emitEvictions (take (nat removeCount) items) s1
                                 else s1)
                       in s3\<lparr>oldCache := new_Map (drop (nat removeCount) items),
                             cache := [], size' := 0\<rparr>))
       in Inr (s2\<lparr>maxSize := newSize\<rparr>)))"

text \<open>
  \<open>evictCount\<close> of \<open>evict\<close>: \<open>Math.trunc(Math.min(requested, Math.max(n - 1, 0)))\<close> for a
  list of \<open>n\<close> items and a request that has passed the guard (it is positive).
\<close>

definition evictCount :: "number \<Rightarrow> nat \<Rightarrow> int" where
  "evictCount requested n =
    (let m = max (int n - 1) 0
     in (case requested of
           Fin r \<Rightarrow> trunc (min r (of_int m))
         | PosInf \<Rightarrow> m
         | NegInf \<Rightarrow> 0
         | NaN \<Rightarrow> 0))"

text \<open>\<open>evict(count = 1)\<close>: \<open>None\<close> is a missing argument.\<close>

definition evict :: "number option \<Rightarrow> rat \<Rightarrow> ('k, 'v) QuickLRU \<Rightarrow> ('k, 'v) QuickLRU" where
  "evict count now s =
    (let requested = (case count of None \<Rightarrow> Fin 1 | Some c \<Rightarrow> c)
     in if \<not> truthy requested \<or> num_le requested 0 then s
        else
         (let (items, s1) = entriesAscending' now s;
              n = evictCount requested (length items)
          in if n \<le> 0 then s1
             else (let s2 = emitEvictions (take (nat n) items) s1
                   in s2\<lparr>oldCache := new_Map (drop (nat n) items), cache := [], size' := 0\<rparr>)))"

definition kv :: "'k \<times> 'v CacheItem \<Rightarrow> 'k \<times> 'v" where
  "kv p = (fst p, val (snd p))"

text \<open>\<open>[Symbol.iterator]\<close>, run to the end.\<close>

definition iterator :: "rat \<Rightarrow> ('k, 'v) QuickLRU \<Rightarrow> ('k \<times> 'v) list \<times> ('k, 'v) QuickLRU" where
  "iterator now s =
    (let (ys1, s1) = loop_all (cache s) now s;
         (ys2, s2) = loop_unshadowed (oldCache s1) now s1
     in (map kv (ys1 @ ys2), s2))"

definition keys :: "rat \<Rightarrow> ('k, 'v) QuickLRU \<Rightarrow> 'k list \<times> ('k, 'v) QuickLRU" where
  "keys now s = (let (ys, s1) = iterator now s in (map fst ys, s1))"

definition values_lru :: "rat \<Rightarrow> ('k, 'v) QuickLRU \<Rightarrow> 'v list \<times> ('k, 'v) QuickLRU" where
  "values_lru now s = (let (ys, s1) = iterator now s in (map snd ys, s1))"

text \<open>
  \<open>entriesDescending\<close>, run to the end: each generation is copied into an array when its
  loop begins and walked from the last index down.
\<close>

definition entriesDescending ::
  "rat \<Rightarrow> ('k, 'v) QuickLRU \<Rightarrow> ('k \<times> 'v) list \<times> ('k, 'v) QuickLRU" where
  "entriesDescending now s =
    (let (ys1, s1) = loop_all (rev (cache s)) now s;
         (ys2, s2) = loop_unshadowed (rev (oldCache s1)) now s1
     in (map kv (ys1 @ ys2), s2))"

definition entriesAscending ::
  "rat \<Rightarrow> ('k, 'v) QuickLRU \<Rightarrow> ('k \<times> 'v) list \<times> ('k, 'v) QuickLRU" where
  "entriesAscending now s = (let (ys, s1) = entriesAscending' now s in (map kv ys, s1))"

text \<open>The getter \<open>size\<close>.\<close>

definition get_size :: "('k, 'v) QuickLRU \<Rightarrow> int" where
  "get_size s =
    (if size' s = 0 then int (length (oldCache s))
     else (let oldCacheSize = int (length (filter (\<lambda>(key, item). \<not> map_has (cache s) key)
                                             (oldCache s)))
           in min (size' s + oldCacheSize) (maxSize s)))"

section \<open>Sequences of public operations\<close>

text \<open>
  One public call. \<open>entries\<close> and \<open>forEach\<close> are \<open>entriesAscending\<close>; the getters change
  nothing.
\<close>

datatype ('k, 'v) op =
    Set 'k 'v jsval
  | Get 'k
  | Has 'k
  | Peek 'k
  | ExpiresIn 'k
  | Delete 'k
  | Clear
  | Resize int
  | Evict "number option"
  | Keys
  | Values
  | Iterator
  | EntriesAscending
  | EntriesDescending
  | Size

text \<open>
  The state after a call made when the clock reads \<open>now\<close>. A \<open>resize\<close> that throws
  leaves the cache as it was.
\<close>

fun step :: "rat \<times> ('k, 'v) op \<Rightarrow> ('k, 'v) QuickLRU \<Rightarrow> ('k, 'v) QuickLRU" where
  "step (now, Set key v opt) s = set_lru key v opt now s"
| "step (now, Get key) s = snd (get key now s)"
| "step (now, Has key) s = snd (has key now s)"
| "step (now, Peek key) s = snd (peek key now s)"
| "step (now, ExpiresIn key) s = s"
| "step (now, Delete key) s = snd (delete key s)"
| "step (now, Clear) s = clear s"
| "step (now, Resize n) s = (case resize n now s of Inl e \<Rightarrow> s | Inr s1 \<Rightarrow> s1)"
| "step (now, Evict c) s = evict c now s"
| "step (now, Keys) s = snd (keys now s)"
| "step (now, Values) s = snd (values_lru now s)"
| "step (now, Iterator) s = snd (iterator now s)"
| "step (now, EntriesAscending) s = snd (entriesAscending now s)"
| "step (now, EntriesDescending) s = snd (entriesDescending now s)"
| "step (now, Size) s = s"

definition run :: "(rat \<times> ('k, 'v) op) list \<Rightarrow> ('k, 'v) QuickLRU \<Rightarrow> ('k, 'v) QuickLRU" where
  "run ops s = foldl (\<lambda>s x. step x s) s ops"

text \<open>A freshly constructed cache: what the constructor returns when it does not throw.\<close>

definition fresh :: "int \<Rightarrow> number \<Rightarrow> bool \<Rightarrow> ('k, 'v) QuickLRU" where
  "fresh n age cb =
    \<lparr> size' = 0, cache = [], oldCache = [], maxSize = n, maxAge = age,
      onEviction = cb, evicted = [] \<rparr>"

section \<open>Invariants and ghost quantities\<close>

text \<open>
  What every reachable state satisfies: no generation holds a key twice (they are maps),
  and \<open>#size\<close> is the number of entries of \<open>#cache\<close>.
\<close>

definition wf :: "('k, 'v) QuickLRU \<Rightarrow> bool" where
  "wf s = (distinct (map fst (cache s)) \<and> distinct (map fst (oldCache s))
           \<and> size' s = int (length (cache s)))"

text \<open>
  The ascending reconciliation as a list: the entries of \<open>#oldCache\<close> whose key
  \<open>#cache\<close> does not hold, then the entries of \<open>#cache\<close>, without those that have
  expired at \<open>now\<close>.
\<close>

definition ascending :: "rat \<Rightarrow> ('k, 'v) QuickLRU \<Rightarrow> ('k \<times> 'v CacheItem) list" where
  "ascending now s =
     filter (\<lambda>p. \<not> map_has (cache s) (fst p) \<and> \<not> isExpired (snd p) now) (oldCache s)
     @ filter (\<lambda>p. \<not> isExpired (snd p) now) (cache s)"

text \<open>
  A list of \<open>set\<close> calls, each with the reading of the clock, the key, the value and the
  \<open>maxAge\<close> option, as a sequence of operations.
\<close>

definition set_calls :: "(rat \<times> 'k \<times> 'v \<times> jsval) list \<Rightarrow> (rat \<times> ('k, 'v) op) list" where
  "set_calls xs = map (\<lambda>(now, key, v, opt). (now, Set key v opt)) xs"

text \<open>
  The key stands for \<open>item\<close> and keeps doing so through \<open>n\<close> more insertions of other
  keys: it is in \<open>#cache\<close>, which then needs two more rotations to lose it, or it is in
  \<open>#oldCache\<close> only, and \<open>n\<close> insertions do not fill \<open>#cache\<close>.
\<close>

definition safe_for :: "'k \<Rightarrow> 'v CacheItem \<Rightarrow> int \<Rightarrow> ('k, 'v) QuickLRU \<Rightarrow> bool" where
  "safe_for key item n s =
     (map_get (cache s) key = Some item \<and> n < 2 * maxSize s - size' s
      \<or> map_get (cache s) key = None \<and> map_get (oldCache s) key = Some item
        \<and> size' s + n < maxSize s)"

text \<open>
  The key a call sends through the insertion path \<open>#set\<close>, if it does: \<open>set\<close> of a key
  that \<open>#cache\<close> does not hold, and \<open>get\<close> of a key found live in \<open>#oldCache\<close> only.
\<close>

fun inserted_key :: "rat \<times> ('k, 'v) op \<Rightarrow> ('k, 'v) QuickLRU \<Rightarrow> 'k option" where
  "inserted_key (now, Set key v opt) s = (if map_has (cache s) key then None else Some key)"
| "inserted_key (now, Get key) s =
    (case map_get (cache s) key of
       Some item \<Rightarrow> None
     | None \<Rightarrow>
        (case map_get (oldCache s) key of
           Some item \<Rightarrow> if isExpired item now then None else Some key
         | None \<Rightarrow> None))"
| "inserted_key (now, x) s = None"




text \<open>
  The bounds behind the capacity: fewer than \<open>maxSize\<close> insertions since the last
  rotation, and at most \<open>maxSize\<close> entries in \<open>#oldCache\<close>.
\<close>

definition bounded :: "('k, 'v) QuickLRU \<Rightarrow> bool" where
  "bounded s = (wf s \<and> size' s < maxSize s \<and> int (length (oldCache s)) \<le> maxSize s)"

fun is_evict :: "('k, 'v) op \<Rightarrow> bool" where
  "is_evict (Evict c) = True"
| "is_evict x = False"

section \<open>Maps\<close>

lemma map_has_map_of: "map_has m k \<longleftrightarrow> map_of m k \<noteq> None"
  by (simp add: map_has_def map_of_eq_None_iff)

lemma map_has_Nil [simp]: "\<not> map_has [] k"
  by (simp add: map_has_def)

lemma map_has_delete [simp]: "map_has (AList.delete k m) k' \<longleftrightarrow> k' \<noteq> k \<and> map_has m k'"
  by (auto simp: map_has_def AList.delete_eq)

lemma map_has_update [simp]: "map_has (AList.update k v m) k' \<longleftrightarrow> k' = k \<or> map_has m k'"
  by (auto simp: map_has_def AList.dom_update)

lemma length_delete_distinct:
  "distinct (map fst m) \<Longrightarrow> map_has m k \<Longrightarrow> Suc (length (AList.delete k m)) = length m"
  by (induction m) (auto simp: map_has_def)

lemma length_update_new: "\<not> map_has m k \<Longrightarrow> length (AList.update k v m) = Suc (length m)"
  by (induction m) (auto simp: map_has_def)

lemma length_update_old: "map_has m k \<Longrightarrow> length (AList.update k v m) = length m"
  by (induction m) (auto simp: map_has_def)

lemma delete_absent: "\<not> map_has m k \<Longrightarrow> AList.delete k m = m"
  by (simp add: map_has_def)

lemma delete_filter: "AList.delete k m = filter (\<lambda>p. fst p \<noteq> k) m"
  by (induction m) auto

lemma new_Map_aux:
  "distinct (map fst (acc @ xs)) \<Longrightarrow> foldl (\<lambda>m (k, v). AList.update k v m) acc xs = acc @ xs"
proof (induction xs arbitrary: acc)
  case Nil
  then show ?case by simp
next
  case (Cons x xs)
  obtain k v where x: "x = (k, v)" by (cases x)
  have "AList.update k v acc = acc @ [(k, v)]"
    using Cons.prems x by (induction acc) auto
  with Cons.IH [of "acc @ [x]"] Cons.prems x show ?case by simp
qed

lemma new_Map_distinct: "distinct (map fst xs) \<Longrightarrow> new_Map xs = xs"
  using new_Map_aux [of "[]" xs] by (simp add: new_Map_def)

lemma delete_sel [simp]:
  "fst (delete k s) = (map_has (cache s) k \<or> map_has (oldCache s) k)"
  "cache (snd (delete k s)) = AList.delete k (cache s)"
  "oldCache (snd (delete k s)) = AList.delete k (oldCache s)"
  "size' (snd (delete k s)) = (if map_has (cache s) k then size' s - 1 else size' s)"
  "maxSize (snd (delete k s)) = maxSize s"
  "maxAge (snd (delete k s)) = maxAge s"
  "onEviction (snd (delete k s)) = onEviction s"
  "evicted (snd (delete k s)) = evicted s"
  by (auto simp: delete_def Let_def)

lemma wf_delete: "wf s \<Longrightarrow> wf (snd (delete k s))"
  using length_delete_distinct [of "cache s" k]
  by (auto simp: wf_def AList.distinct_delete delete_absent)

lemma deleteIfExpired_sel [simp]:
  "fst (deleteIfExpired k it now s) =
     (isExpired it now \<and> (map_has (cache s) k \<or> map_has (oldCache s) k))"
  "cache (snd (deleteIfExpired k it now s)) =
     (if isExpired it now then AList.delete k (cache s) else cache s)"
  "oldCache (snd (deleteIfExpired k it now s)) =
     (if isExpired it now then AList.delete k (oldCache s) else oldCache s)"
  "size' (snd (deleteIfExpired k it now s)) =
     (if isExpired it now \<and> map_has (cache s) k then size' s - 1 else size' s)"
  "maxSize (snd (deleteIfExpired k it now s)) = maxSize s"
  "maxAge (snd (deleteIfExpired k it now s)) = maxAge s"
  "onEviction (snd (deleteIfExpired k it now s)) = onEviction s"
  "evicted (snd (deleteIfExpired k it now s)) =
     (if isExpired it now \<and> onEviction s then evicted s @ [(k, val it)] else evicted s)"
  by (auto simp: deleteIfExpired_def)

lemma wf_evicted_update [simp]: "wf (s\<lparr>evicted := l\<rparr>) = wf s"
  by (simp add: wf_def)

lemma wf_deleteIfExpired: "wf s \<Longrightarrow> wf (snd (deleteIfExpired k it now s))"
  by (simp add: deleteIfExpired_def wf_delete)

lemma wf_getItemValue: "wf s \<Longrightarrow> wf (snd (getItemValue k it now s))"
  by (auto simp: getItemValue_def getOrDeleteIfExpired_def split_beta wf_deleteIfExpired)

lemma wf_set': "wf s \<Longrightarrow> \<not> map_has (cache s) k \<Longrightarrow> wf (set' k it s)"
  by (auto simp: set'_def Let_def wf_def emitEvictions_def AList.distinct_update length_update_new)

lemma wf_moveToRecent: "wf s \<Longrightarrow> \<not> map_has (cache s) k \<Longrightarrow> wf (moveToRecent k it s)"
  unfolding moveToRecent_def
  by (rule wf_set') (auto simp: wf_def AList.distinct_delete)

lemma wf_get: "wf s \<Longrightarrow> wf (snd (get k now s))"
  by (auto simp: get_def split_beta wf_getItemValue wf_deleteIfExpired wf_moveToRecent
      map_has_map_of split: option.splits)

lemma wf_set_lru: "wf s \<Longrightarrow> wf (set_lru k v opt now s)"
  by (auto simp: set_lru_def Let_def wf_set') (auto simp: wf_def AList.distinct_update length_update_old)

lemma wf_has: "wf s \<Longrightarrow> wf (snd (has k now s))"
  by (auto simp: has_def split_beta wf_deleteIfExpired split: option.splits)

lemma wf_peek: "wf s \<Longrightarrow> wf (snd (peek k now s))"
  by (auto simp: peek_def wf_getItemValue split: option.splits)

lemma wf_clear: "wf (clear s)"
  by (simp add: wf_def clear_def)

lemma wf_loop_all: "wf s \<Longrightarrow> wf (snd (loop_all xs now s))"
  by (induction xs arbitrary: s) (auto simp: split_beta wf_deleteIfExpired)

lemma wf_loop_unshadowed: "wf s \<Longrightarrow> wf (snd (loop_unshadowed xs now s))"
  by (induction xs arbitrary: s) (auto simp: split_beta wf_deleteIfExpired)

section \<open>The loops of the generators\<close>

lemma filter_filter_notin:
  "filter (\<lambda>p. fst p \<notin> A) (filter (\<lambda>p. fst p \<noteq> k) m) = filter (\<lambda>p. fst p \<notin> insert k A) m"
  by (induction m) auto

lemma loop_all_cache [simp]:
  "cache (snd (loop_all xs now s)) =
     filter (\<lambda>p. fst p \<notin> fst ` set (filter (\<lambda>p. isExpired (snd p) now) xs)) (cache s)"
proof (induction xs arbitrary: s)
  case Nil
  then show ?case by simp
next
  case (Cons x xs)
  obtain k it where x: "x = (k, it)" by (cases x)
  show ?case
    by (cases "isExpired it now")
      (simp_all add: x split_beta Cons.IH delete_filter filter_filter_notin)
qed

lemma loop_all_oldCache [simp]:
  "oldCache (snd (loop_all xs now s)) =
     filter (\<lambda>p. fst p \<notin> fst ` set (filter (\<lambda>p. isExpired (snd p) now) xs)) (oldCache s)"
proof (induction xs arbitrary: s)
  case Nil
  then show ?case by simp
next
  case (Cons x xs)
  obtain k it where x: "x = (k, it)" by (cases x)
  show ?case
    by (cases "isExpired it now")
      (simp_all add: x split_beta Cons.IH delete_filter filter_filter_notin)
qed

lemma loop_all_sel [simp]:
  "maxSize (snd (loop_all xs now s)) = maxSize s"
  "maxAge (snd (loop_all xs now s)) = maxAge s"
  "onEviction (snd (loop_all xs now s)) = onEviction s"
  by (induction xs arbitrary: s; simp add: split_beta split_paired_all)+

lemma loop_all_evicted:
  "evicted (snd (loop_all xs now s)) =
     evicted s @ (if onEviction s then map kv (filter (\<lambda>p. isExpired (snd p) now) xs) else [])"
proof (induction xs arbitrary: s)
  case Nil
  then show ?case by simp
next
  case (Cons x xs)
  obtain k it where x: "x = (k, it)" by (cases x)
  show ?case
    by (simp add: x split_beta Cons.IH kv_def)
qed

lemma loop_all_yield:
  "distinct (map fst xs) \<Longrightarrow>
   list_all (\<lambda>p. map_has (cache s) (fst p) \<or> map_has (oldCache s) (fst p)) xs \<Longrightarrow>
   fst (loop_all xs now s) = filter (\<lambda>p. \<not> isExpired (snd p) now) xs"
proof (induction xs arbitrary: s)
  case Nil
  then show ?case by simp
next
  case (Cons x xs)
  obtain k it where x: "x = (k, it)" by (cases x)
  let ?s1 = "snd (deleteIfExpired k it now s)"
  have "list_all (\<lambda>p. map_has (cache ?s1) (fst p) \<or> map_has (oldCache ?s1) (fst p)) xs"
    using Cons.prems x by (auto simp: list_all_iff)
  with Cons.IH [of ?s1] Cons.prems
  have "fst (loop_all xs now ?s1) = filter (\<lambda>p. \<not> isExpired (snd p) now) xs"
    by simp
  with Cons.prems x show ?case
    by (simp add: split_beta)
qed

lemma loop_unshadowed_step:
  "\<not> map_has (cache s) k \<Longrightarrow> cache (snd (deleteIfExpired k it now s)) = cache s"
  "\<not> map_has (cache s) k \<Longrightarrow> size' (snd (deleteIfExpired k it now s)) = size' s"
  by (simp_all add: delete_absent)

lemma loop_unshadowed_cache [simp]:
  "cache (snd (loop_unshadowed xs now s)) = cache s"
proof (induction xs arbitrary: s)
  case Nil
  then show ?case by simp
next
  case (Cons x xs)
  obtain k it where x: "x = (k, it)" by (cases x)
  show ?case
    by (cases "map_has (cache s) k")
      (simp_all add: x split_beta Cons.IH loop_unshadowed_step del: deleteIfExpired_sel)
qed

lemma loop_unshadowed_size [simp]:
  "size' (snd (loop_unshadowed xs now s)) = size' s"
proof (induction xs arbitrary: s)
  case Nil
  then show ?case by simp
next
  case (Cons x xs)
  obtain k it where x: "x = (k, it)" by (cases x)
  show ?case
    by (cases "map_has (cache s) k")
      (simp_all add: x split_beta Cons.IH loop_unshadowed_step del: deleteIfExpired_sel)
qed

lemma loop_unshadowed_sel [simp]:
  "maxSize (snd (loop_unshadowed xs now s)) = maxSize s"
  "maxAge (snd (loop_unshadowed xs now s)) = maxAge s"
  "onEviction (snd (loop_unshadowed xs now s)) = onEviction s"
  by (induction xs arbitrary: s; simp add: split_beta split_paired_all)+


lemma loop_unshadowed_evicted:
  "evicted (snd (loop_unshadowed xs now s)) =
     evicted s @ (if onEviction s
       then map kv (filter (\<lambda>p. \<not> map_has (cache s) (fst p) \<and> isExpired (snd p) now) xs) else [])"
proof (induction xs arbitrary: s)
  case Nil
  then show ?case by simp
next
  case (Cons x xs)
  obtain k it where x: "x = (k, it)" by (cases x)
  show ?case
    by (cases "map_has (cache s) k")
      (simp_all add: x split_beta Cons.IH loop_unshadowed_step(1) kv_def del: deleteIfExpired_sel(2))
qed

lemma loop_unshadowed_yield:
  "distinct (map fst xs) \<Longrightarrow>
   list_all (\<lambda>p. map_has (cache s) (fst p) \<or> map_has (oldCache s) (fst p)) xs \<Longrightarrow>
   fst (loop_unshadowed xs now s) =
     filter (\<lambda>p. \<not> map_has (cache s) (fst p) \<and> \<not> isExpired (snd p) now) xs"
proof (induction xs arbitrary: s)
  case Nil
  then show ?case by simp
next
  case (Cons x xs)
  obtain k it where x: "x = (k, it)" by (cases x)
  let ?s1 = "snd (deleteIfExpired k it now s)"
  show ?case
  proof (cases "map_has (cache s) k")
    case True
    with Cons x show ?thesis by simp
  next
    case False
    have c: "cache ?s1 = cache s"
      using False by (rule loop_unshadowed_step)
    have "list_all (\<lambda>p. map_has (cache s) (fst p) \<or> map_has (oldCache ?s1) (fst p)) xs"
      using Cons.prems x False by (auto simp: list_all_iff)
    with Cons.IH [of ?s1] Cons.prems c
    have "fst (loop_unshadowed xs now ?s1) =
        filter (\<lambda>p. \<not> map_has (cache s) (fst p) \<and> \<not> isExpired (snd p) now) xs"
      by simp
    with Cons.prems x False show ?thesis
      by (simp add: split_beta)
  qed
qed

section \<open>Every operation keeps the state well formed\<close>

lemma list_all_has_self: "list_all (\<lambda>p. map_has m (fst p)) m"
  by (auto simp: list_all_iff map_has_def)

lemma entriesAscending'_yield:
  assumes "wf s"
  shows "fst (entriesAscending' now s) = ascending now s"
proof -
  let ?s1 = "snd (loop_unshadowed (oldCache s) now s)"
  have d: "distinct (map fst (cache s))" "distinct (map fst (oldCache s))"
    using assms by (simp_all add: wf_def)
  have 1: "fst (loop_unshadowed (oldCache s) now s) =
      filter (\<lambda>p. \<not> map_has (cache s) (fst p) \<and> \<not> isExpired (snd p) now) (oldCache s)"
    using d(2) by (rule loop_unshadowed_yield) (auto simp: list_all_iff map_has_def)
  have 2: "fst (loop_all (cache s) now ?s1) = filter (\<lambda>p. \<not> isExpired (snd p) now) (cache s)"
    using d(1) by (rule loop_all_yield) (auto simp: list_all_iff map_has_def)
  show ?thesis
    by (simp add: entriesAscending'_def split_beta ascending_def 1 2)
qed

lemma distinct_ascending:
  assumes "wf s"
  shows "distinct (map fst (ascending now s))"
proof -
  have "distinct (map fst (cache s))" "distinct (map fst (oldCache s))"
    using assms by (simp_all add: wf_def)
  then show ?thesis
    by (auto simp: ascending_def distinct_map_filter map_has_def)
qed

lemma wf_entriesAscending': "wf s \<Longrightarrow> wf (snd (entriesAscending' now s))"
  by (simp add: entriesAscending'_def split_beta wf_loop_all wf_loop_unshadowed)

lemma entriesAscending'_sel [simp]:
  "maxSize (snd (entriesAscending' now s)) = maxSize s"
  "maxAge (snd (entriesAscending' now s)) = maxAge s"
  "onEviction (snd (entriesAscending' now s)) = onEviction s"
  by (simp_all add: entriesAscending'_def split_beta)

lemma wf_emitEvictions [simp]: "wf (emitEvictions xs s) = wf s"
  by (simp add: emitEvictions_def)

lemma wf_rebuild_old:
  "distinct (map fst xs) \<Longrightarrow> wf (s\<lparr>oldCache := xs, cache := [], size' := 0\<rparr>)"
  by (simp add: wf_def)

lemma wf_rebuild_cache:
  "distinct (map fst xs) \<Longrightarrow> wf (s\<lparr>cache := xs, oldCache := [], size' := int (length xs)\<rparr>)"
  by (simp add: wf_def)

lemma wf_maxSize_update [simp]: "wf (s\<lparr>maxSize := n\<rparr>) = wf s"
  by (simp add: wf_def)

lemma distinct_take_keys: "distinct (map fst xs) \<Longrightarrow> distinct (map fst (take n xs))"
  by (simp add: take_map [symmetric])

lemma distinct_drop_keys: "distinct (map fst xs) \<Longrightarrow> distinct (map fst (drop n xs))"
  by (simp add: drop_map [symmetric])

lemma wf_resize:
  assumes "wf s" "resize n now s = Inr s'"
  shows "wf s'"
proof -
  let ?items = "ascending now s"
  let ?s1 = "snd (entriesAscending' now s)"
  have d: "distinct (map fst ?items)" using assms(1) by (rule distinct_ascending)
  have y: "fst (entriesAscending' now s) = ?items" using assms(1) by (rule entriesAscending'_yield)
  have nm: "new_Map ?items = ?items" using d by (rule new_Map_distinct)
  have nd: "new_Map (drop k ?items) = drop k ?items" for k
    using d by (intro new_Map_distinct distinct_drop_keys)
  have w1: "wf ?s1" using assms(1) by (rule wf_entriesAscending')
  from assms(2) have pos: "n > 0"
    by (auto simp: resize_def split: if_splits)
  show ?thesis
  proof (cases "int (length ?items) - n < 0")
    case True
    with assms(2) pos y nm have "s' = ?s1\<lparr>cache := ?items, oldCache := [],
        size' := int (length ?items), maxSize := n\<rparr>"
      by (simp add: resize_def split_beta Let_def)
    with d show ?thesis by (simp add: wf_def)
  next
    case False
    with assms(2) pos y nd obtain s3 where "s' = s3\<lparr>oldCache := drop (nat (int (length ?items) - n)) ?items,
        cache := [], size' := 0, maxSize := n\<rparr>"
      by (simp add: resize_def split_beta Let_def) blast
    with d show ?thesis by (simp add: wf_def distinct_drop_keys)
  qed
qed

lemma wf_evict:
  assumes "wf s"
  shows "wf (evict c now s)"
proof -
  let ?items = "ascending now s"
  let ?s1 = "snd (entriesAscending' now s)"
  have d: "distinct (map fst ?items)" using assms(1) by (rule distinct_ascending)
  have y: "fst (entriesAscending' now s) = ?items" using assms(1) by (rule entriesAscending'_yield)
  have nd: "new_Map (drop k ?items) = drop k ?items" for k
    using d by (intro new_Map_distinct distinct_drop_keys)
  have w1: "wf ?s1" using assms(1) by (rule wf_entriesAscending')
  show ?thesis
    using assms w1 d
    by (simp add: evict_def Let_def split_beta y nd wf_rebuild_old distinct_drop_keys)
qed

lemma wf_iterator: "wf s \<Longrightarrow> wf (snd (iterator now s))"
  by (simp add: iterator_def split_beta wf_loop_all wf_loop_unshadowed)

lemma wf_entriesDescending: "wf s \<Longrightarrow> wf (snd (entriesDescending now s))"
  by (simp add: entriesDescending_def split_beta wf_loop_all wf_loop_unshadowed)

lemma wf_step: "wf s \<Longrightarrow> wf (step x s)"
proof -
  assume w: "wf s"
  obtain now o' where x: "x = (now, o')" by (cases x)
  show "wf (step x s)"
  proof (cases o')
    case (Resize n)
    then show ?thesis
      using w x wf_resize [OF w, of n now] by (simp split: sum.splits)
  qed (simp_all add: x w wf_set_lru wf_get wf_has wf_peek wf_delete wf_clear wf_evict
      wf_iterator wf_entriesDescending wf_entriesAscending' keys_def values_lru_def
      entriesAscending_def split_beta)
qed

lemma wf_run: "wf s \<Longrightarrow> wf (run ops s)"
  unfolding run_def by (induction ops arbitrary: s) (simp_all add: wf_step)

lemma wf_fresh: "wf (fresh n age cb)"
  by (simp add: wf_def fresh_def)

lemma constructor_fresh: "constructor n a cb = Inr s \<Longrightarrow> \<exists>age. s = fresh n age cb \<and> n > 0"
  by (auto simp: constructor_def fresh_def split: if_splits)

section \<open>The insert counter\<close>


section \<open>Deletion\<close>

text \<open>
  C8. \<open>delete(key)\<close> removes the key from both generations whatever its expiry (it
  reads no clock) and leaves every other entry in place; \<open>#size\<close> goes down by one
  exactly when \<open>#cache\<close> held the key; the callback is not called; the result is true
  exactly when one of the generations held the key.
\<close>

theorem delete_removes_from_both:
  "(let (r, s') = delete key s in
      cache s' = filter (\<lambda>p. fst p \<noteq> key) (cache s)
      \<and> oldCache s' = filter (\<lambda>p. fst p \<noteq> key) (oldCache s)
      \<and> \<not> map_has (cache s') key \<and> \<not> map_has (oldCache s') key
      \<and> size' s' = (if map_has (cache s) key then size' s - 1 else size' s)
      \<and> evicted s' = evicted s
      \<and> r = (map_has (cache s) key \<or> map_has (oldCache s) key))"
  by (auto simp: split_beta delete_filter map_has_def)

section \<open>Rotation and the callback\<close>

text \<open>
  C10. The callback can fire for a key that stays in the cache. With \<open>maxSize = 2\<close>,
  after \<open>set(1, 1); set(2, 2); set(1, 10)\<close> key 1 has a copy in \<open>#oldCache\<close> (value 1)
  and one in \<open>#cache\<close> (value 10); \<open>set(3, 3)\<close> rotates and calls \<open>onEviction(1, 1)\<close>,
  and \<open>has(1)\<close> is still true, \<open>get(1)\<close> giving 10.
\<close>

theorem eviction_fires_for_key_still_present:
  "(let s0 = run [(0, Set 1 1 Undefined), (0, Set 2 2 Undefined), (0, Set 1 10 Undefined)]
               (fresh 2 PosInf True :: (nat, nat) QuickLRU);
        s1 = step (0, Set 3 3 Undefined) s0
    in map_get (oldCache s0) 1 = Some \<lparr>val = 1, expiry = None\<rparr>
       \<and> map_get (cache s0) 1 = Some \<lparr>val = 10, expiry = None\<rparr>
       \<and> evicted s0 = [] \<and> evicted s1 = [(1, 1), (2, 2)]
       \<and> fst (has 1 0 s1) \<and> fst (get 1 0 s1) = Some 10)"
  by code_simp

section \<open>The capacity after a manual eviction\<close>

text \<open>
  C1. The capacity bound fails once \<open>evict\<close> is used. With \<open>maxSize = 3\<close>, after
  \<open>set\<close> of the keys 1 to 5 and \<open>evict(1)\<close> the getter \<open>size\<close> reports 4; going on with
  \<open>set(6); set(7); evict(1); set(8); set(9)\<close> the two generations hold 7 entries, more
  than \<open>2 * maxSize\<close>.
\<close>

theorem evict_breaks_capacity_bound:
  "(let s = run [(0, Set 1 1 Undefined), (0, Set 2 2 Undefined), (0, Set 3 3 Undefined),
                 (0, Set 4 4 Undefined), (0, Set 5 5 Undefined), (0, Evict (Some (Fin 1)))]
              (fresh 3 PosInf False :: (nat, nat) QuickLRU);
        t = run [(0, Set 6 6 Undefined), (0, Set 7 7 Undefined), (0, Evict (Some (Fin 1))),
                 (0, Set 8 8 Undefined), (0, Set 9 9 Undefined)] s
    in maxSize s = 3 \<and> get_size s = 4
       \<and> maxSize t = 3 \<and> length (cache t) + length (oldCache t) = 7)"
  by code_simp

section \<open>The expiry of a stored entry\<close>



section \<open>Peek\<close>

lemma find_item_has:
  "find_item key s = Some item \<Longrightarrow> map_has (cache s) key \<or> map_has (oldCache s) key"
  by (auto simp: find_item_def map_has_map_of split: option.splits)

lemma truthy_expired: "num_le e now \<Longrightarrow> truthy e \<longleftrightarrow> e \<noteq> Fin 0"
  by (cases e) auto

text \<open>
  C6, as the code has it. \<open>peek(key)\<close> reads the entry the key stands for, the copy in
  \<open>#cache\<close> first. When there is none it returns nothing; when the entry has not expired,
  or its expiry is the falsy 0, it returns the value; in both cases the state stays as it
  was: no promotion. When the entry has expired it returns nothing and the state is that
  of the lazy deletion: one callback, then \<open>delete(key)\<close>. No entry ever enters \<open>#cache\<close>.
  Unless the expiry of the entry is 0, the result is that of \<open>get\<close>.
\<close>

theorem peek_effect:
  "peek key now s =
     (case find_item key s of
        None \<Rightarrow> (None, s)
      | Some item \<Rightarrow>
          if isExpired item now \<and> expiry item \<noteq> Some (Fin 0)
          then (None, snd (delete key
                  (if onEviction s then s\<lparr>evicted := evicted s @ [(key, val item)]\<rparr> else s)))
          else (Some (val item), s))
   \<and> set (cache (snd (peek key now s))) \<subseteq> set (cache s)
   \<and> (Option.bind (find_item key s) expiry \<noteq> Some (Fin 0)
        \<longrightarrow> fst (peek key now s) = fst (get key now s))"
proof (intro conjI)
  have g: "getItemValue key item now s =
      (if isExpired item now \<and> expiry item \<noteq> Some (Fin 0)
       then (None, snd (delete key
               (if onEviction s then s\<lparr>evicted := evicted s @ [(key, val item)]\<rparr> else s)))
       else (Some (val item), s))" if "find_item key s = Some item" for item
  proof (cases "expiry item")
    case None
    then show ?thesis by (simp add: getItemValue_def isExpired_def)
  next
    case (Some e)
    show ?thesis
    proof (cases "num_le e now")
      case True
      with Some find_item_has [OF that] show ?thesis
        by (auto simp: getItemValue_def getOrDeleteIfExpired_def isExpired_def
            deleteIfExpired_def split_beta truthy_expired)
    next
      case False
      with Some show ?thesis
        by (simp add: getItemValue_def getOrDeleteIfExpired_def isExpired_def
            deleteIfExpired_def split_beta)
    qed
  qed
  have p: "peek key now s =
      (case find_item key s of None \<Rightarrow> (None, s) | Some item \<Rightarrow> getItemValue key item now s)"
    by (simp add: peek_def find_item_def split: option.splits)
  show e: "peek key now s =
     (case find_item key s of
        None \<Rightarrow> (None, s)
      | Some item \<Rightarrow>
          if isExpired item now \<and> expiry item \<noteq> Some (Fin 0)
          then (None, snd (delete key
                  (if onEviction s then s\<lparr>evicted := evicted s @ [(key, val item)]\<rparr> else s)))
          else (Some (val item), s))"
    unfolding p by (cases "find_item key s") (simp_all add: g)
  show "set (cache (snd (peek key now s))) \<subseteq> set (cache s)"
    unfolding e by (auto simp: delete_filter split: option.splits)
  show "Option.bind (find_item key s) expiry \<noteq> Some (Fin 0)
        \<longrightarrow> fst (peek key now s) = fst (get key now s)"
  proof
    assume a: "Option.bind (find_item key s) expiry \<noteq> Some (Fin 0)"
    show "fst (peek key now s) = fst (get key now s)"
    proof (cases "map_get (cache s) key")
      case (Some item)
      then show ?thesis by (simp add: peek_def get_def)
    next
      case None
      show ?thesis
      proof (cases "map_get (oldCache s) key")
        case n: None
        with None show ?thesis by (simp add: peek_def get_def)
      next
        case (Some item)
        with None have f: "find_item key s = Some item" by (simp add: find_item_def)
        with a have z: "expiry item \<noteq> Some (Fin 0)" by simp
        have h: "map_has (oldCache s) key" using Some by (simp add: map_has_map_of)
        have "fst (get key now s) = (if isExpired item now then None else Some (val item))"
          using None Some h by (simp add: get_def split_beta)
        with z show ?thesis unfolding e f by simp
      qed
    qed
  qed
qed

theorem peek_effect_witness:
  "(let s = set_lru 1 1 (Number (Fin 5)) 0 (fresh 3 PosInf True :: (nat, nat) QuickLRU)
    in find_item 1 s = Some \<lparr>val = 1, expiry = Some (Fin 5)\<rparr>
       \<and> fst (peek 1 3 s) = fst (get 1 3 s) \<and> fst (peek 1 3 s) = Some 1
       \<and> snd (peek 1 3 s) = s)"
proof -
  let ?s = "set_lru 1 1 (Number (Fin 5)) 0 (fresh 3 PosInf True :: (nat, nat) QuickLRU)"
  have f: "find_item 1 ?s = Some \<lparr>val = 1, expiry = Some (Fin 5)\<rparr>"
    by code_simp
  have h: "Option.bind (find_item 1 ?s) expiry \<noteq> Some (Fin 0)"
    unfolding f by simp
  have p: "fst (peek 1 3 ?s) = Some 1" "snd (peek 1 3 ?s) = ?s"
    by code_simp+
  from peek_effect [of 1 3 ?s] h have "fst (peek 1 3 ?s) = fst (get 1 3 ?s)" by blast
  with f p show ?thesis by (simp add: Let_def)
qed

text \<open>
  C6, as stated, fails: a \<open>peek\<close> of an expired key of \<open>#cache\<close> removes it, lowers
  \<open>#size\<close> and calls the callback.
\<close>

theorem peek_deletes_expired:
  "(let s = set_lru 1 1 (Number (Fin 5)) 0 (fresh 3 PosInf True :: (nat, nat) QuickLRU);
        s' = snd (peek 1 10 s)
    in cache s = [(1, \<lparr>val = 1, expiry = Some (Fin 5)\<rparr>)] \<and> size' s = 1 \<and> evicted s = []
       \<and> fst (peek 1 10 s) = None
       \<and> cache s' = [] \<and> size' s' = 0 \<and> evicted s' = [(1, 1)])"
  by code_simp

section \<open>The traversals\<close>


lemma map_has_filter_notin:
  "map_has (filter (\<lambda>p. fst p \<notin> E) m) k \<longleftrightarrow> map_has m k \<and> k \<notin> E"
  by (auto simp: map_has_def)

lemma expired_keys_present: "k \<in> fst ` set (filter P m) \<Longrightarrow> map_has m k"
  by (auto simp: map_has_def)

lemma entriesDescending_yield:
  assumes "wf s"
  shows "fst (entriesDescending now s) =
     map kv (rev (filter (\<lambda>p. \<not> isExpired (snd p) now) (cache s))
             @ rev (filter (\<lambda>p. \<not> map_has (cache s) (fst p) \<and> \<not> isExpired (snd p) now)
                     (oldCache s)))"
proof -
  let ?E = "fst ` set (filter (\<lambda>p. isExpired (snd p) now) (cache s))"
  let ?s1 = "snd (loop_all (rev (cache s)) now s)"
  have d: "distinct (map fst (cache s))" "distinct (map fst (oldCache s))"
    using assms by (simp_all add: wf_def)
  have 1: "fst (loop_all (rev (cache s)) now s) =
      filter (\<lambda>p. \<not> isExpired (snd p) now) (rev (cache s))"
    by (rule loop_all_yield) (auto simp: d list_all_iff map_has_def rev_map [symmetric])
  have c1: "cache ?s1 = filter (\<lambda>p. fst p \<notin> ?E) (cache s)"
    and o1: "oldCache ?s1 = filter (\<lambda>p. fst p \<notin> ?E) (oldCache s)"
    by simp_all
  have 2: "fst (loop_unshadowed (rev (oldCache ?s1)) now ?s1) =
      filter (\<lambda>p. \<not> map_has (cache ?s1) (fst p) \<and> \<not> isExpired (snd p) now) (rev (oldCache ?s1))"
  proof (rule loop_unshadowed_yield)
    have "wf ?s1" using assms by (rule wf_loop_all)
    then show "distinct (map fst (rev (oldCache ?s1)))"
      by (simp add: wf_def rev_map [symmetric] del: loop_all_oldCache)
    show "list_all (\<lambda>p. map_has (cache ?s1) (fst p) \<or> map_has (oldCache ?s1) (fst p))
        (rev (oldCache ?s1))"
      by (auto simp: list_all_iff map_has_def simp del: loop_all_cache loop_all_oldCache)
  qed
  have 3: "filter (\<lambda>p. \<not> map_has (cache ?s1) (fst p) \<and> \<not> isExpired (snd p) now) (oldCache ?s1)
      = filter (\<lambda>p. \<not> map_has (cache s) (fst p) \<and> \<not> isExpired (snd p) now) (oldCache s)"
    unfolding c1 o1 filter_filter map_has_filter_notin
    using expired_keys_present [of _ "\<lambda>p. isExpired (snd p) now" "cache s"]
    by (intro filter_cong refl) blast
  show ?thesis
    unfolding entriesDescending_def
    by (simp only: split_beta Let_def fst_conv 1 2 rev_filter [symmetric] 3)
qed

text \<open>
  C5. In every state reached from a fresh cache, at one reading of the clock: the full
  ascending traversal yields the live entries of \<open>#oldCache\<close> whose key \<open>#cache\<close> does
  not hold, in insertion order, then the live entries of \<open>#cache\<close> in insertion order;
  the full descending traversal yields the live entries of \<open>#cache\<close> in reverse order,
  then those of \<open>#oldCache\<close> that \<open>#cache\<close> does not hold, in reverse order; and the
  ascending sequence reversed is the descending sequence.
\<close>

theorem ascending_reversed_is_descending:
  "(let s = run ops (fresh n age cb)
    in fst (entriesAscending now s) =
         map kv (filter (\<lambda>p. \<not> map_has (cache s) (fst p) \<and> \<not> isExpired (snd p) now)
                   (oldCache s)
                 @ filter (\<lambda>p. \<not> isExpired (snd p) now) (cache s))
       \<and> fst (entriesDescending now s) =
         map kv (rev (filter (\<lambda>p. \<not> isExpired (snd p) now) (cache s))
                 @ rev (filter (\<lambda>p. \<not> map_has (cache s) (fst p) \<and> \<not> isExpired (snd p) now)
                         (oldCache s)))
       \<and> rev (fst (entriesAscending now s)) = fst (entriesDescending now s))"
proof -
  let ?s = "run ops (fresh n age cb)"
  have w: "wf ?s" by (rule wf_run [OF wf_fresh])
  have a: "fst (entriesAscending now ?s) = map kv (ascending now ?s)"
    by (simp add: entriesAscending_def split_beta entriesAscending'_yield [OF w])
  show ?thesis
    unfolding Let_def a entriesDescending_yield [OF w]
    by (simp add: ascending_def rev_map)
qed

section \<open>Manual eviction\<close>



lemma entriesAscending'_evicted:
  "evicted (snd (entriesAscending' now s)) =
     evicted s @ (if onEviction s
       then map kv (filter (\<lambda>p. \<not> map_has (cache s) (fst p) \<and> isExpired (snd p) now) (oldCache s)
                    @ filter (\<lambda>p. isExpired (snd p) now) (cache s))
       else [])"
  by (simp add: entriesAscending'_def split_beta loop_unshadowed_evicted loop_all_evicted)







lemma kv_case: "(\<lambda>(key, item). (key, val item)) = kv"
  by (auto simp: kv_def fun_eq_iff)

lemma emitEvictions_sel [simp]:
  "cache (emitEvictions xs s) = cache s"
  "oldCache (emitEvictions xs s) = oldCache s"
  "size' (emitEvictions xs s) = size' s"
  "maxSize (emitEvictions xs s) = maxSize s"
  "maxAge (emitEvictions xs s) = maxAge s"
  "onEviction (emitEvictions xs s) = onEviction s"
  "evicted (emitEvictions xs s) = evicted s @ (if onEviction s then map kv xs else [])"
  by (simp_all add: emitEvictions_def kv_case)








section \<open>Promotion\<close>

lemma map_of_update_other: "k \<noteq> key \<Longrightarrow> map_of (AList.update k v m) key = map_of m key"
  by (simp add: AList.update_conv')

lemma safe_for_set':
  assumes "safe_for key item (n + 1) s" "k \<noteq> key" "0 \<le> n"
  shows "safe_for key item n (set' k it s)"
  using assms
  by (auto simp: safe_for_def set'_def Let_def map_of_update_other)

lemma safe_for_set_lru:
  assumes "safe_for key item (n + 1) s" "k \<noteq> key" "0 \<le> n"
  shows "safe_for key item n (set_lru k v opt now s)"
proof (cases "map_has (cache s) k")
  case True
  with assms show ?thesis
    by (auto simp: set_lru_def Let_def safe_for_def map_of_update_other)
next
  case False
  with safe_for_set' [OF assms] show ?thesis
    by (simp add: set_lru_def Let_def)
qed

lemma safe_for_run:
  assumes "safe_for key item (int (length xs)) s" "list_all (\<lambda>(now, k, v, opt). k \<noteq> key) xs"
  shows "safe_for key item 0 (run (set_calls xs) s)"
  using assms
proof (induction xs arbitrary: s)
  case Nil
  then show ?case by (simp add: run_def set_calls_def)
next
  case (Cons x xs)
  obtain now k v opt where x: "x = (now, k, v, opt)" by (cases x)
  from Cons.prems x have "safe_for key item (int (length xs)) (set_lru k v opt now s)"
    by (intro safe_for_set_lru) (simp_all add: add.commute)
  with Cons.IH [of "set_lru k v opt now s"] Cons.prems(2) x show ?case
    by (simp add: run_def set_calls_def)
qed

lemma safe_for_has:
  assumes "safe_for key item n s" "\<not> isExpired item now"
  shows "fst (has key now s)"
  using assms by (auto simp: safe_for_def has_def split_beta)

lemma promotion:
  assumes "map_get (cache s) key = None" "map_get (oldCache s) key = Some item"
    "\<not> isExpired item now"
  shows "get key now s = (Some (val item), moveToRecent key item s)"
  using assms by (simp add: get_def deleteIfExpired_def)

lemma safe_for_moveToRecent:
  assumes "n < maxSize s \<or> n \<le> maxSize s \<and> size' s + 1 < maxSize s"
  shows "safe_for key item n (moveToRecent key item s)"
  using assms
  by (auto simp: safe_for_def moveToRecent_def set'_def Let_def AList.update_conv')

text \<open>
  C3, as the code has it. When \<open>get(key)\<close> finds the key in \<open>#oldCache\<close> only, not
  expired, it returns the value and promotes the entry; after any later \<open>set\<close> calls on
  other keys, fewer than \<open>maxSize\<close> of them, or exactly \<open>maxSize\<close> when the promotion did
  not fill \<open>#cache\<close> (\<open>#size + 1 < maxSize\<close> before it), \<open>has(key)\<close> is true, provided the
  entry has not expired by then.
\<close>

theorem promoted_key_survives:
  assumes "map_get (cache s) key = None" and "map_get (oldCache s) key = Some item"
    and "\<not> isExpired item now"
    and "list_all (\<lambda>(t, k, v, opt). k \<noteq> key) sets"
    and "int (length sets) < maxSize s
         \<or> int (length sets) \<le> maxSize s \<and> size' s + 1 < maxSize s"
    and "\<not> isExpired item now'"
  shows "fst (get key now s) = Some (val item)
       \<and> fst (has key now' (run (set_calls sets) (snd (get key now s))))"
proof -
  have g: "get key now s = (Some (val item), moveToRecent key item s)"
    using assms(1-3) by (rule promotion)
  have "safe_for key item (int (length sets)) (moveToRecent key item s)"
    using assms(5) by (rule safe_for_moveToRecent)
  then have "safe_for key item 0 (run (set_calls sets) (moveToRecent key item s))"
    using assms(4) by (rule safe_for_run)
  then have "fst (has key now' (run (set_calls sets) (moveToRecent key item s)))"
    using assms(6) by (rule safe_for_has)
  with g show ?thesis by simp
qed

theorem promoted_key_survives_witness:
  "(let s = run [(0, Set 1 1 Undefined), (0, Set 2 2 Undefined)]
              (fresh 2 PosInf False :: (nat, nat) QuickLRU);
        item = \<lparr>val = 1, expiry = None\<rparr>
    in map_get (cache s) 1 = None \<and> map_get (oldCache s) 1 = Some item
       \<and> maxSize s = 2 \<and> size' s = 0
       \<and> fst (get 1 0 s) = Some 1
       \<and> fst (has 1 0 (run (set_calls [(0, 3, 3, Undefined)]) (snd (get 1 0 s)))))
   \<and> (let s = run [(0, Set 1 1 Undefined), (0, Set 2 2 Undefined), (0, Set 3 3 Undefined)]
                (fresh 3 PosInf False :: (nat, nat) QuickLRU);
          item = \<lparr>val = 1, expiry = None\<rparr>
      in map_get (cache s) 1 = None \<and> map_get (oldCache s) 1 = Some item
         \<and> maxSize s = 3 \<and> size' s = 0
         \<and> fst (has 1 0 (run (set_calls [(0, 4, 4, Undefined), (0, 5, 5, Undefined),
                                           (0, 6, 6, Undefined)]) (snd (get 1 0 s)))))
   \<and> fst (has 1 0 (run [(0, Set 1 1 Undefined), (0, Set 2 2 Undefined), (0, Get 1),
                         (0, Set 3 3 Undefined), (0, Get 1), (0, Set 4 4 Undefined), (0, Get 1)]
                      (fresh 2 PosInf False :: (nat, nat) QuickLRU)))"
proof -
  let ?s = "run [(0, Set 1 1 Undefined), (0, Set 2 2 Undefined)]
      (fresh 2 PosInf False :: (nat, nat) QuickLRU)"
  let ?t = "run [(0, Set 1 1 Undefined), (0, Set 2 2 Undefined), (0, Set 3 3 Undefined)]
      (fresh 3 PosInf False :: (nat, nat) QuickLRU)"
  let ?item = "\<lparr>val = 1 :: nat, expiry = None\<rparr>"
  let ?one = "[(0 :: rat, 3 :: nat, 3 :: nat, Undefined)]"
  let ?three = "[(0 :: rat, 4 :: nat, 4 :: nat, Undefined), (0, 5, 5, Undefined),
      (0, 6, 6, Undefined)]"
  have a: "map_get (cache ?s) 1 = None" "map_get (oldCache ?s) 1 = Some ?item"
      "maxSize ?s = 2" "size' ?s = 0"
    by code_simp+
  have b: "map_get (cache ?t) 1 = None" "map_get (oldCache ?t) 1 = Some ?item"
      "maxSize ?t = 3" "size' ?t = 0"
    by code_simp+
  have e: "\<not> isExpired ?item 0" by (simp add: isExpired_def)
  have l: "list_all (\<lambda>(t, k, v, opt). k \<noteq> (1 :: nat)) ?one"
      "list_all (\<lambda>(t, k, v, opt). k \<noteq> (1 :: nat)) ?three"
    by simp_all
  have n: "int (length ?one) < maxSize ?s
      \<or> int (length ?one) \<le> maxSize ?s \<and> size' ?s + 1 < maxSize ?s"
    unfolding a by simp
  have m: "int (length ?three) < maxSize ?t
      \<or> int (length ?three) \<le> maxSize ?t \<and> size' ?t + 1 < maxSize ?t"
    unfolding b by simp
  have x: "fst (has 1 0 (run [(0, Set 1 1 Undefined), (0, Set 2 2 Undefined), (0, Get 1),
                         (0, Set 3 3 Undefined), (0, Get 1), (0, Set 4 4 Undefined), (0, Get 1)]
                      (fresh 2 PosInf False :: (nat, nat) QuickLRU)))"
    by code_simp
  from promoted_key_survives [OF a(1,2) e l(1) n e]
    promoted_key_survives [OF b(1,2) e l(2) m e] a b x
  show ?thesis
    unfolding Let_def by simp
qed

text \<open>
  C3, as stated, fails for \<open>maxSize\<close> insertions: with \<open>maxSize = 2\<close>, after
  \<open>set(1); set(2); set(3)\<close> the call \<open>get(1)\<close> promotes key 1 and the promotion rotates;
  two insertions of new keys later, \<open>set(4); set(5)\<close>, key 1 is gone.
\<close>

theorem promoted_key_lost_after_maxSize_sets:
  "(let s = run [(0, Set 1 1 Undefined), (0, Set 2 2 Undefined), (0, Set 3 3 Undefined)]
              (fresh 2 PosInf False :: (nat, nat) QuickLRU);
        s1 = snd (get 1 0 s);
        s2 = run [(0, Set 4 4 Undefined), (0, Set 5 5 Undefined)] s1
    in maxSize s = 2
       \<and> map_get (cache s) 1 = None \<and> map_get (oldCache s) 1 = Some \<lparr>val = 1, expiry = None\<rparr>
       \<and> fst (get 1 0 s) = Some 1
       \<and> \<not> fst (has 1 0 s2))"
  by code_simp

section \<open>The insert counter and the insertion path\<close>

lemma keys_delete: "fst ` set (AList.delete k m) \<subseteq> fst ` set m"
  by (rule AList.dom_delete_subset)

lemma keys_deleteIfExpired:
  "fst ` set (cache (snd (deleteIfExpired k it now s))) \<subseteq> fst ` set (cache s)"
  by (simp add: keys_delete)














lemma inserted_key_effect:
  assumes "inserted_key x s = Some key"
  shows "if size' s + 1 \<ge> maxSize s
         then cache (step x s) = [] \<and> size' (step x s) = 0 \<and> map_has (oldCache (step x s)) key
         else map_has (cache (step x s)) key \<and> size' (step x s) = size' s + 1"
proof -
  obtain now o' where x: "x = (now, o')" by (cases x)
  show ?thesis
  proof (cases o')
    case (Set k v opt)
    with assms x show ?thesis
      by (auto simp: set_lru_def set'_def Let_def emitEvictions_def split: if_splits)
  next
    case (Get k)
    with assms x show ?thesis
      by (auto simp: get_def moveToRecent_def set'_def Let_def emitEvictions_def
          deleteIfExpired_def split: option.splits if_splits)
  qed (use assms x in simp_all)
qed




section \<open>The capacity bound without manual eviction\<close>

text \<open>
  As long as \<open>evict\<close> is not called, every operation keeps \<open>#size\<close> below \<open>maxSize\<close>
  and \<open>#oldCache\<close> at \<open>maxSize\<close> entries at most; so \<open>size\<close> is at most \<open>maxSize\<close> and
  the two generations hold at most \<open>2 * maxSize\<close> entries.
\<close>

lemma bounded_delete: "bounded s \<Longrightarrow> bounded (snd (delete k s))"
  using AList.length_delete_le [of k "oldCache s"]
  by (auto simp: bounded_def wf_delete)

lemma bounded_evicted_update [simp]: "bounded (s\<lparr>evicted := l\<rparr>) = bounded s"
  by (simp add: bounded_def)

lemma bounded_deleteIfExpired: "bounded s \<Longrightarrow> bounded (snd (deleteIfExpired k it now s))"
  by (simp add: deleteIfExpired_def bounded_delete)

lemma bounded_getItemValue: "bounded s \<Longrightarrow> bounded (snd (getItemValue k it now s))"
  by (simp add: getItemValue_def getOrDeleteIfExpired_def split_beta bounded_deleteIfExpired)

lemma bounded_set':
  assumes "bounded s" "\<not> map_has (cache s) k"
  shows "bounded (set' k it s)"
proof -
  have w: "wf (set' k it s)" using assms by (auto simp: bounded_def wf_set')
  have l: "int (length (AList.update k it (cache s))) = size' s + 1"
    using assms by (simp add: bounded_def wf_def length_update_new)
  have p: "0 \<le> size' s" using assms by (simp add: bounded_def wf_def)
  show ?thesis
    using assms w l p by (auto simp: bounded_def set'_def Let_def)
qed

lemma bounded_moveToRecent:
  assumes "bounded s" "\<not> map_has (cache s) k"
  shows "bounded (moveToRecent k it s)"
  unfolding moveToRecent_def
proof (rule bounded_set')
  show "bounded (s\<lparr>oldCache := AList.delete k (oldCache s)\<rparr>)"
    using assms(1) AList.length_delete_le [of k "oldCache s"]
    by (auto simp: bounded_def wf_def AList.distinct_delete)
  show "\<not> map_has (cache (s\<lparr>oldCache := AList.delete k (oldCache s)\<rparr>)) k"
    using assms(2) by simp
qed

lemma bounded_get: "bounded s \<Longrightarrow> bounded (snd (get k now s))"
  by (auto simp: get_def split_beta bounded_getItemValue bounded_deleteIfExpired
      bounded_moveToRecent map_has_map_of split: option.splits)

lemma bounded_set_lru: "bounded s \<Longrightarrow> bounded (set_lru k v opt now s)"
proof (cases "map_has (cache s) k")
  case True
  assume "bounded s"
  with True wf_set_lru [of s k v opt now] show ?thesis
    by (simp add: bounded_def set_lru_def Let_def)
next
  case False
  assume "bounded s"
  with False show ?thesis
    by (simp add: set_lru_def Let_def bounded_set')
qed

lemma bounded_has: "bounded s \<Longrightarrow> bounded (snd (has k now s))"
  by (auto simp: has_def split_beta bounded_deleteIfExpired split: option.splits)

lemma bounded_peek: "bounded s \<Longrightarrow> bounded (snd (peek k now s))"
  by (auto simp: peek_def bounded_getItemValue split: option.splits)

lemma bounded_loop_all: "bounded s \<Longrightarrow> bounded (snd (loop_all xs now s))"
proof (induction xs arbitrary: s)
  case Nil
  then show ?case by simp
next
  case (Cons x xs)
  obtain k it where x: "x = (k, it)" by (cases x)
  from Cons.prems have "bounded (snd (deleteIfExpired k it now s))"
    by (rule bounded_deleteIfExpired)
  then have "bounded (snd (loop_all xs now (snd (deleteIfExpired k it now s))))"
    by (rule Cons.IH)
  then show ?case by (simp add: x split_beta)
qed

lemma bounded_loop_unshadowed: "bounded s \<Longrightarrow> bounded (snd (loop_unshadowed xs now s))"
proof (induction xs arbitrary: s)
  case Nil
  then show ?case by simp
next
  case (Cons x xs)
  obtain k it where x: "x = (k, it)" by (cases x)
  from Cons.prems have "bounded (snd (deleteIfExpired k it now s))"
    by (rule bounded_deleteIfExpired)
  then have "bounded (snd (loop_unshadowed xs now (snd (deleteIfExpired k it now s))))"
    by (rule Cons.IH)
  with Cons show ?case by (simp add: x split_beta)
qed

lemma bounded_resize:
  assumes "bounded s" "resize n now s = Inr s'"
  shows "bounded s'"
proof -
  let ?items = "ascending now s"
  let ?s1 = "snd (entriesAscending' now s)"
  have w: "wf s" using assms(1) by (simp add: bounded_def)
  have w': "wf s'" using w assms(2) by (rule wf_resize)
  have d: "distinct (map fst ?items)" using w by (rule distinct_ascending)
  have y: "fst (entriesAscending' now s) = ?items" using w by (rule entriesAscending'_yield)
  have nd: "new_Map (drop k ?items) = drop k ?items" for k
    using d by (intro new_Map_distinct distinct_drop_keys)
  from assms(2) have pos: "n > 0"
    by (auto simp: resize_def split: if_splits)
  show ?thesis
  proof (cases "int (length ?items) - n < 0")
    case True
    with assms(2) pos y have "size' s' = int (length ?items) \<and> oldCache s' = [] \<and> maxSize s' = n"
      by (auto simp: resize_def split_beta Let_def)
    with True w' show ?thesis by (simp add: bounded_def)
  next
    case False
    with assms(2) pos y nd
    have "size' s' = 0 \<and> oldCache s' = drop (nat (int (length ?items) - n)) ?items \<and> maxSize s' = n"
      by (auto simp: resize_def split_beta Let_def)
    with False w' pos show ?thesis by (simp add: bounded_def)
  qed
qed

lemma bounded_step:
  assumes "bounded s" "\<not> is_evict (snd x)"
  shows "bounded (step x s)"
proof -
  obtain now o' where x: "x = (now, o')" by (cases x)
  show ?thesis
  proof (cases o')
    case (Resize n)
    then show ?thesis
      using assms x bounded_resize [OF assms(1), of n now] by (simp split: sum.splits)
  next
    case Clear
    with assms x show ?thesis by (simp add: bounded_def clear_def wf_def)
  next
    case (Evict c)
    with assms x show ?thesis by simp
  qed (simp_all add: x assms bounded_set_lru bounded_get bounded_has bounded_peek bounded_delete
      bounded_loop_all bounded_loop_unshadowed keys_def values_lru_def iterator_def
      entriesAscending_def entriesAscending'_def entriesDescending_def split_beta)
qed

lemma bounded_run:
  "bounded s \<Longrightarrow> list_all (\<lambda>x. \<not> is_evict (snd x)) ops \<Longrightarrow> bounded (run ops s)"
  unfolding run_def by (induction ops arbitrary: s) (simp_all add: bounded_step)

lemma capacity_bound_without_evict:
  assumes "0 < n" "list_all (\<lambda>x. \<not> is_evict (snd x)) ops"
  shows "get_size (run ops (fresh n age cb)) \<le> maxSize (run ops (fresh n age cb))
       \<and> int (length (cache (run ops (fresh n age cb))) + length (oldCache (run ops (fresh n age cb))))
           \<le> 2 * maxSize (run ops (fresh n age cb))"
proof -
  have "bounded (fresh n age cb)"
    using assms(1) by (simp add: bounded_def wf_fresh) (simp add: fresh_def)
  then have "bounded (run ops (fresh n age cb))"
    using assms(2) by (rule bounded_run)
  then show ?thesis
    by (auto simp: bounded_def wf_def get_size_def Let_def)
qed

end
